theory Spec2Isabelle
  imports Main "HOL-Library.Word" "HOL-Library.Sublist"
begin

unbundle bit_operations_syntax

section \<open>JavaScript values used by the streaming code\<close>

text \<open>
  A chunk delivered by \<^verbatim>\<open>reader.read()\<close> is a \<^verbatim>\<open>Uint8Array\<close>: a list of bytes.
  A JavaScript string is a sequence of UTF-16 code units. Code points are natural numbers.
  An error object carries a name and a \<^verbatim>\<open>message\<close> string (the empty string is falsy).
\<close>

type_synonym byte = "8 word"
type_synonym js_string = "16 word list"

datatype js_error = JsError (error_name: string) (message: js_string)

definition js :: "string \<Rightarrow> js_string" where
  "js s = map (\<lambda>c. of_nat (of_char c)) s"

definition utf16_encode :: "nat \<Rightarrow> js_string" where
  "utf16_encode cp =
     (if cp < 0x10000 then [of_nat cp]
      else [of_nat (0xD800 + (cp - 0x10000) div 0x400),
            of_nat (0xDC00 + (cp - 0x10000) mod 0x400)])"

definition js_string_of :: "nat list \<Rightarrow> js_string" where
  "js_string_of cps = concat (map utf16_encode cps)"

section \<open>The platform's TextDecoder\<close>

text \<open>
  \<^verbatim>\<open>new TextDecoder()\<close> is the browser's UTF-8 decoder with replacement error mode and
  BOM handling switched on. It is not part of the repository; the definitions below follow
  the UTF-8 decoder and the \<^verbatim>\<open>decode(input, {stream})\<close> algorithm of the WHATWG Encoding
  Standard step by step.
\<close>

record utf8_decoder =
  code_point :: nat
  bytes_seen :: nat
  bytes_needed :: nat
  lower_boundary :: nat
  upper_boundary :: nat

definition utf8_decoder_init :: utf8_decoder where
  "utf8_decoder_init =
     \<lparr>code_point = 0, bytes_seen = 0, bytes_needed = 0,
      lower_boundary = 0x80, upper_boundary = 0xBF\<rparr>"

datatype handler_result = Continue | Emit nat | DecodeError | DecodeErrorRestore

text \<open>The handler for one byte. \<open>DecodeErrorRestore\<close> is an error that puts the byte back.\<close>

definition utf8_handler :: "utf8_decoder \<Rightarrow> nat \<Rightarrow> utf8_decoder \<times> handler_result" where
  "utf8_handler d b =
     (if bytes_needed d = 0 then
        (if b \<le> 0x7F then (d, Emit b)
         else if 0xC2 \<le> b \<and> b \<le> 0xDF then
           (d\<lparr>bytes_needed := 1, code_point := b AND 0x1F\<rparr>, Continue)
         else if 0xE0 \<le> b \<and> b \<le> 0xEF then
           (d\<lparr>lower_boundary := (if b = 0xE0 then 0xA0 else lower_boundary d),
              upper_boundary := (if b = 0xED then 0x9F else upper_boundary d),
              bytes_needed := 2, code_point := b AND 0xF\<rparr>, Continue)
         else if 0xF0 \<le> b \<and> b \<le> 0xF4 then
           (d\<lparr>lower_boundary := (if b = 0xF0 then 0x90 else lower_boundary d),
              upper_boundary := (if b = 0xF4 then 0x8F else upper_boundary d),
              bytes_needed := 3, code_point := b AND 0x7\<rparr>, Continue)
         else (d, DecodeError))
      else if \<not> (lower_boundary d \<le> b \<and> b \<le> upper_boundary d) then
        (utf8_decoder_init, DecodeErrorRestore)
      else
        (let d' = d\<lparr>lower_boundary := 0x80, upper_boundary := 0xBF,
                     code_point := push_bit 6 (code_point d) OR (b AND 0x3F),
                     bytes_seen := bytes_seen d + 1\<rparr>
         in if bytes_seen d' \<noteq> bytes_needed d' then (d', Continue)
            else (utf8_decoder_init, Emit (code_point d'))))"

text \<open>
  Processing one byte in replacement mode: an error emits U+FFFD; a restored byte is read
  again, now by a decoder that needs no further bytes.
\<close>

definition process_byte :: "utf8_decoder \<Rightarrow> byte \<Rightarrow> utf8_decoder \<times> nat list" where
  "process_byte d b =
     (case utf8_handler d (unat b) of
        (d', Continue) \<Rightarrow> (d', [])
      | (d', Emit cp) \<Rightarrow> (d', [cp])
      | (d', DecodeError) \<Rightarrow> (d', [0xFFFD])
      | (d', DecodeErrorRestore) \<Rightarrow>
          (case utf8_handler d' (unat b) of
             (d'', Emit cp) \<Rightarrow> (d'', [0xFFFD, cp])
           | (d'', Continue) \<Rightarrow> (d'', [0xFFFD])
           | (d'', _) \<Rightarrow> (d'', [0xFFFD, 0xFFFD])))"

fun decode_bytes :: "utf8_decoder \<Rightarrow> byte list \<Rightarrow> utf8_decoder \<times> nat list" where
  "decode_bytes d [] = (d, [])"
| "decode_bytes d (b # bs) =
     (let (d', out) = process_byte d b;
          (d'', rest) = decode_bytes d' bs
      in (d'', out @ rest))"

text \<open>The handler at end-of-queue, reached only by a flushing call (\<open>stream\<close> false).\<close>

definition end_of_queue :: "utf8_decoder \<Rightarrow> utf8_decoder \<times> nat list" where
  "end_of_queue d =
     (if bytes_needed d \<noteq> 0 then (d\<lparr>bytes_needed := 0\<rparr>, [0xFFFD]) else (d, []))"

text \<open>Serialising the output: the first scalar value is dropped when it is U+FEFF.\<close>

fun serialize_io_queue :: "bool \<Rightarrow> nat list \<Rightarrow> bool \<times> nat list" where
  "serialize_io_queue seen [] = (seen, [])"
| "serialize_io_queue seen (item # items) =
     (if \<not> seen \<and> item = 0xFEFF then serialize_io_queue True items
      else (let (seen', out) = serialize_io_queue True items in (seen', item # out)))"

record text_decoder =
  utf8 :: utf8_decoder
  bom_seen :: bool
  do_not_flush :: bool

definition new_TextDecoder :: text_decoder where
  "new_TextDecoder = \<lparr>utf8 = utf8_decoder_init, bom_seen = False, do_not_flush = False\<rparr>"

definition TextDecoder_decode ::
  "text_decoder \<Rightarrow> byte list \<Rightarrow> bool \<Rightarrow> text_decoder \<times> js_string" where
  "TextDecoder_decode td input stream =
     (let td1 = (if \<not> do_not_flush td
                 then td\<lparr>utf8 := utf8_decoder_init, bom_seen := False\<rparr> else td);
          (d, output) = decode_bytes (utf8 td1) input;
          (d', output') = (if stream then (d, output)
                           else (let (e, tail) = end_of_queue d in (e, output @ tail)));
          (seen, items) = serialize_io_queue (bom_seen td1) output'
      in (td1\<lparr>utf8 := d', bom_seen := seen, do_not_flush := stream\<rparr>, js_string_of items))"

section \<open>The document and the rendering libraries\<close>

text \<open>
  The document maps an element id to the element \<^verbatim>\<open>getElementById\<close> returns for it. Of a
  message element only the content of its first \<^verbatim>\<open>.message-content\<close> descendant matters here
  (\<open>None\<close>: there is no such descendant). Rendered content is the sequence of its
  \<^verbatim>\<open>pre code\<close> blocks and of the markup between them, in document order.

  \<^verbatim>\<open>md.render\<close> (markdown-it) and \<^verbatim>\<open>hljs.highlightElement\<close> (highlight.js) are libraries
  loaded by the page, so they are parameters; \<open>hljs = None\<close> is
  \<^verbatim>\<open>typeof hljs === 'undefined'\<close>.
\<close>

datatype 'b node = PreCode 'b | Markup js_string

record 'b element =
  message_content :: "'b node list option"

type_synonym 'b document = "string \<rightharpoonup> 'b element"

record 'b env =
  md_render :: "js_string \<Rightarrow> 'b node list"
  hljs :: "('b \<Rightarrow> 'b) option"

definition getElementById :: "'b document \<Rightarrow> string \<Rightarrow> string option" where
  "getElementById doc i = (if doc i = None then None else Some i)"

definition set_innerHTML :: "string \<Rightarrow> 'b node list \<Rightarrow> 'b document \<Rightarrow> 'b document" where
  "set_innerHTML ref content doc =
     (case doc ref of
        None \<Rightarrow> doc
      | Some el \<Rightarrow> doc(ref \<mapsto> el\<lparr>message_content := Some content\<rparr>))"

definition highlight_blocks :: "('b \<Rightarrow> 'b) \<Rightarrow> 'b node list \<Rightarrow> 'b node list" where
  "highlight_blocks highlightElement nodes =
     map (\<lambda>n. case n of PreCode b \<Rightarrow> PreCode (highlightElement b) | Markup m \<Rightarrow> Markup m) nodes"

definition highlight_pass :: "('b \<Rightarrow> 'b) \<Rightarrow> string \<Rightarrow> 'b document \<Rightarrow> 'b document" where
  "highlight_pass highlightElement ref doc =
     (case doc ref of
        None \<Rightarrow> doc
      | Some el \<Rightarrow>
          (case message_content el of
             None \<Rightarrow> doc
           | Some nodes \<Rightarrow>
               doc(ref \<mapsto> el\<lparr>message_content := Some (highlight_blocks highlightElement nodes)\<rparr>)))"

section \<open>streamResponse\<close>

text \<open>
  \<^verbatim>\<open>reader.read()\<close> settles with a chunk, with \<^verbatim>\<open>done\<close>, or rejects. The reader is the list
  of the results of its successive reads; after the last one a read never settles.
  \<^verbatim>\<open>response.body\<close> is \<^verbatim>\<open>null\<close> for a response without a body.
\<close>

datatype read_result = Chunk "byte list" | Done | ReadError js_error

record response =
  body :: "read_result list option"

datatype 'a promise = Resolved 'a | Rejected js_error | Pending

datatype loop_exit = Finished | Threw js_error | Awaiting

record 'b session =
  decoder :: text_decoder
  fullMessage :: js_string
  document :: "'b document"
  console :: "js_error list"

text \<open>Lines 192 to 204: the update of the message element for one chunk.\<close>

definition update_message ::
  "'b env \<Rightarrow> string option \<Rightarrow> js_string \<Rightarrow> 'b document \<Rightarrow> 'b document" where
  "update_message env messageElement full doc =
     (case messageElement of
        None \<Rightarrow> doc
      | Some ref \<Rightarrow>
          (case doc ref of
             None \<Rightarrow> doc
           | Some el \<Rightarrow>
               (case message_content el of
                  None \<Rightarrow> doc
                | Some _ \<Rightarrow>
                    (let doc' = set_innerHTML ref (md_render env full) doc
                     in case hljs env of
                          None \<Rightarrow> doc'
                        | Some highlightElement \<Rightarrow> highlight_pass highlightElement ref doc'))))"

text \<open>Lines 188 to 204: the body of the loop for one chunk.\<close>

definition on_chunk :: "'b env \<Rightarrow> string option \<Rightarrow> 'b session \<Rightarrow> byte list \<Rightarrow> 'b session" where
  "on_chunk env messageElement s v =
     (let (dec, chunk) = TextDecoder_decode (decoder s) v True;
          full = fullMessage s @ chunk
      in s\<lparr>decoder := dec, fullMessage := full,
            document := update_message env messageElement full (document s)\<rparr>)"

text \<open>Lines 184 to 205: the loop. With no read result left the loop awaits for ever.\<close>

fun read_loop ::
  "'b env \<Rightarrow> string option \<Rightarrow> 'b session \<Rightarrow> read_result list \<Rightarrow> 'b session \<times> loop_exit" where
  "read_loop env messageElement s [] = (s, Awaiting)"
| "read_loop env messageElement s (Done # rs) = (s, Finished)"
| "read_loop env messageElement s (ReadError e # rs) = (s, Threw e)"
| "read_loop env messageElement s (Chunk v # rs) =
     read_loop env messageElement (on_chunk env messageElement s v) rs"

definition error_annotation :: "js_error \<Rightarrow> js_string" where
  "error_annotation e =
     js ([CHR 0x0A, CHR 0x0A] @ ''**Error during streaming:** '') @
     (if message e \<noteq> [] then message e else js ''Connection interrupted.'')"

text \<open>Lines 206 to 209: the catch block.\<close>

definition on_error :: "'b session \<Rightarrow> js_error \<Rightarrow> 'b session" where
  "on_error s e =
     s\<lparr>console := console s @ [e], fullMessage := fullMessage s @ error_annotation e\<rparr>"

definition streamResponse ::
  "'b env \<Rightarrow> 'b document \<Rightarrow> response \<Rightarrow> string \<Rightarrow> 'b session \<times> js_string promise" where
  "streamResponse env doc response messageId =
     (let s0 = \<lparr>decoder = new_TextDecoder, fullMessage = [], document = doc, console = []\<rparr>
      in case body response of
           None \<Rightarrow> (s0, Rejected (JsError ''TypeError'' (js ''response.body is null'')))
         | Some reader \<Rightarrow>
             (let messageElement = getElementById doc messageId;
                  (s, exit) = read_loop env messageElement s0 reader
              in case exit of
                   Awaiting \<Rightarrow> (s, Pending)
                 | Finished \<Rightarrow> (s, Resolved (fullMessage s))
                 | Threw e \<Rightarrow> (let s' = on_error s e in (s', Resolved (fullMessage s')))))"

section \<open>removeTypingIndicator\<close>

text \<open>
  The function binds \<^verbatim>\<open>typingDiv\<close> and then reads the identifier \<^verbatim>\<open>typing_Div\<close>. An
  identifier is looked up in the local bindings first and then in the bindings of the
  enclosing scopes, which are a parameter; an unresolvable reference throws.
\<close>

definition TYPING_INDICATOR_ID :: string where
  "TYPING_INDICATOR_ID = ''typing-indicator''"

definition resolve_identifier :: "(string \<times> 'v) list \<Rightarrow> string \<Rightarrow> js_error + 'v" where
  "resolve_identifier scope x =
     (case map_of scope x of
        None \<Rightarrow> Inl (JsError ''ReferenceError'' (js (x @ '' is not defined'')))
      | Some v \<Rightarrow> Inr v)"

definition remove_element :: "string \<Rightarrow> 'b document \<Rightarrow> 'b document" where
  "remove_element ref doc = doc(ref := None)"

definition removeTypingIndicator ::
  "(string \<times> string) list \<Rightarrow> 'b document \<Rightarrow> (js_error + unit) \<times> 'b document" where
  "removeTypingIndicator enclosing doc =
     (case getElementById doc TYPING_INDICATOR_ID of
        None \<Rightarrow> (Inr (), doc)
      | Some typingDiv \<Rightarrow>
          (case resolve_identifier ((''typingDiv'', typingDiv) # enclosing) ''typing_Div'' of
             Inl err \<Rightarrow> (Inl err, doc)
           | Inr target \<Rightarrow> (Inr (), remove_element target doc)))"

section \<open>Notions the properties are stated with\<close>

text \<open>
  Valid text is a list of Unicode scalar values; its UTF-8 encoding is the byte sequence a
  server sends for it.
\<close>

definition is_scalar_value :: "nat \<Rightarrow> bool" where
  "is_scalar_value cp \<longleftrightarrow> cp < 0x110000 \<and> \<not> (0xD800 \<le> cp \<and> cp \<le> 0xDFFF)"

definition utf8_encode :: "nat \<Rightarrow> byte list" where
  "utf8_encode cp =
     (if cp < 0x80 then [of_nat cp]
      else if cp < 0x800 then [of_nat (0xC0 + cp div 64), of_nat (0x80 + cp mod 64)]
      else if cp < 0x10000 then
        [of_nat (0xE0 + cp div 4096), of_nat (0x80 + cp div 64 mod 64), of_nat (0x80 + cp mod 64)]
      else
        [of_nat (0xF0 + cp div 262144), of_nat (0x80 + cp div 4096 mod 64),
         of_nat (0x80 + cp div 64 mod 64), of_nat (0x80 + cp mod 64)])"

definition utf8_encode_text :: "nat list \<Rightarrow> byte list" where
  "utf8_encode_text cps = concat (map utf8_encode cps)"

definition valid_text :: "nat list \<Rightarrow> bool" where
  "valid_text cps \<longleftrightarrow> list_all is_scalar_value cps"

text \<open>The text a decoder yields for a byte-order mark followed by text is the text.\<close>

fun strip_bom :: "nat list \<Rightarrow> nat list" where
  "strip_bom [] = []"
| "strip_bom (c # cs) = (if c = 0xFEFF then cs else c # cs)"

text \<open>The strings that successive \<^verbatim>\<open>decode(value, {stream: true})\<close> calls return.\<close>

fun decoded_chunks :: "text_decoder \<Rightarrow> byte list list \<Rightarrow> js_string list" where
  "decoded_chunks td [] = []"
| "decoded_chunks td (v # vs) =
     (let (td', chunk) = TextDecoder_decode td v True in chunk # decoded_chunks td' vs)"

text \<open>What the message element shows for an accumulated text: the render, highlighted.\<close>

definition rendered_view :: "'b env \<Rightarrow> js_string \<Rightarrow> 'b node list" where
  "rendered_view env full =
     (case hljs env of
        None \<Rightarrow> md_render env full
      | Some highlightElement \<Rightarrow> highlight_blocks highlightElement (md_render env full))"

text \<open>Decoder states inside a multi-byte sequence.\<close>

definition after_lead3 :: "nat \<Rightarrow> utf8_decoder" where
  "after_lead3 h =
     utf8_decoder_init\<lparr>lower_boundary := (if h = 0 then 0xA0 else 0x80),
        upper_boundary := (if h = 13 then 0x9F else 0xBF),
        bytes_needed := 2, code_point := h\<rparr>"

definition after_lead4 :: "nat \<Rightarrow> utf8_decoder" where
  "after_lead4 h =
     utf8_decoder_init\<lparr>lower_boundary := (if h = 0 then 0x90 else 0x80),
        upper_boundary := (if h = 4 then 0x8F else 0xBF),
        bytes_needed := 3, code_point := h\<rparr>"

definition in_sequence :: "nat \<Rightarrow> nat \<Rightarrow> nat \<Rightarrow> utf8_decoder" where
  "in_sequence needed seen c =
     utf8_decoder_init\<lparr>bytes_needed := needed, bytes_seen := seen, code_point := c\<rparr>"

text \<open>A decoder that is in streaming mode, or that has not been used yet.\<close>

definition streaming_or_fresh :: "text_decoder \<Rightarrow> bool" where
  "streaming_or_fresh td \<longleftrightarrow>
     do_not_flush td \<or> (utf8 td = utf8_decoder_init \<and> \<not> bom_seen td)"

text \<open>The session a run of the loop leaves behind, the catch block included.\<close>

definition settle :: "'b session \<times> loop_exit \<Rightarrow> 'b session" where
  "settle r = (case r of (s, Threw e) \<Rightarrow> on_error s e | (s, _) \<Rightarrow> s)"

definition initial_session :: "'b document \<Rightarrow> 'b session" where
  "initial_session doc =
     \<lparr>decoder = new_TextDecoder, fullMessage = [], document = doc, console = []\<rparr>"

text \<open>The session after the chunks \<open>cs\<close> have been read and processed.\<close>

definition session_after :: "'b env \<Rightarrow> 'b document \<Rightarrow> string \<Rightarrow> byte list list \<Rightarrow> 'b session" where
  "session_after env doc messageId cs =
     foldl (on_chunk env (getElementById doc messageId)) (initial_session doc) cs"

text \<open>A small page for concrete runs: a renderer that wraps the text, no highlighter.\<close>

definition example_env :: "unit env" where
  "example_env = \<lparr>md_render = (\<lambda>s. [Markup s]), hljs = None\<rparr>"

definition example_doc :: "unit document" where
  "example_doc = [''msg-1'' \<mapsto> \<lparr>message_content = Some []\<rparr>]"





section \<open>Arithmetic of the byte patterns\<close>

text \<open>
  The decoder masks and shifts; the encoder divides. The lemmas below relate the two and
  follow the decoder through the bytes of one encoded scalar value.
\<close>

lemma and_low:
  "(b::nat) AND 0x3F = b mod 64"
  "(b::nat) AND 0x1F = b mod 32"
  "(b::nat) AND 0xF = b mod 16"
  "(b::nat) AND 0x7 = b mod 8"
proof -
  have "(b::nat) AND mask 6 = b mod 2 ^ 6" "(b::nat) AND mask 5 = b mod 2 ^ 5"
    "(b::nat) AND mask 4 = b mod 2 ^ 4" "(b::nat) AND mask 3 = b mod 2 ^ 3"
    by (simp_all only: take_bit_eq_mask [symmetric] take_bit_eq_mod)
  then show "(b::nat) AND 0x3F = b mod 64" "(b::nat) AND 0x1F = b mod 32"
    "(b::nat) AND 0xF = b mod 16" "(b::nat) AND 0x7 = b mod 8"
    by (simp_all add: mask_eq_exp_minus_1)
qed

lemma shift_or: "l < 64 \<Longrightarrow> push_bit 6 (c::nat) OR l = c * 64 + l"
proof -
  assume l: "l < 64"
  have "take_bit 6 l = l" using l by (simp add: take_bit_nat_eq_self_iff)
  then have lt: "\<And>n. bit l n \<Longrightarrow> n < 6"
    by (metis bit_take_bit_iff)
  have "push_bit 6 c + l = push_bit 6 c OR l"
  proof (rule disjunctive_add)
    fix n
    show "\<not> bit (push_bit 6 c) n \<or> \<not> bit l n"
      using lt [of n] by (auto simp: bit_push_bit_iff)
  qed
  then show ?thesis by (simp add: push_bit_eq_mult)
qed

lemma unat_byte: "n < 256 \<Longrightarrow> unat (of_nat n :: byte) = n"
  by (simp only: unat_of_nat) simp

lemma decode_bytes_append:
  "decode_bytes d (xs @ ys) =
     (let (d', out) = decode_bytes d xs; (d'', rest) = decode_bytes d' ys in (d'', out @ rest))"
  by (induction xs arbitrary: d) (simp_all add: split_beta Let_def)

lemma mod_lead: "l < m \<Longrightarrow> (k * m + l) mod m = (l::nat)"
  by simp

lemma lead2_mod: "h < 32 \<Longrightarrow> (0xC0 + h) mod 32 = (h::nat)"
  using mod_lead [of h 32 6] by simp

lemma cont_mod: "l < 64 \<Longrightarrow> (0x80 + l) mod 64 = (l::nat)"
  using mod_lead [of l 64 2] by simp

lemma lead3_mod: "h < 16 \<Longrightarrow> (0xE0 + h) mod 16 = (h::nat)"
  using mod_lead [of h 16 14] by simp

lemma lead4_mod: "h < 8 \<Longrightarrow> (0xF0 + h) mod 8 = (h::nat)"
  using mod_lead [of h 8 30] by simp

lemma split3: "(cp::nat) = (cp div 4096 * 64 + cp div 64 mod 64) * 64 + cp mod 64"
proof -
  have "cp div 4096 = cp div 64 div 64" by (simp add: div_mult2_eq[symmetric])
  then have "cp div 4096 * 64 + cp div 64 mod 64 = cp div 64" by simp
  then show ?thesis by simp
qed

lemma split4:
  "(cp::nat) =
     ((cp div 262144 * 64 + cp div 4096 mod 64) * 64 + cp div 64 mod 64) * 64 + cp mod 64"
proof -
  have "cp div 262144 = cp div 4096 div 64" by (simp add: div_mult2_eq[symmetric])
  then have "cp div 262144 * 64 + cp div 4096 mod 64 = cp div 4096" by simp
  then show ?thesis using split3 [of cp] by simp
qed

lemma handler_ascii: "b \<le> 0x7F \<Longrightarrow> utf8_handler utf8_decoder_init b = (utf8_decoder_init, Emit b)"
  by (simp add: utf8_handler_def utf8_decoder_init_def)

lemma handler_lead2:
  "2 \<le> h \<Longrightarrow> h < 32 \<Longrightarrow>
   utf8_handler utf8_decoder_init (0xC0 + h) =
     (utf8_decoder_init\<lparr>bytes_needed := 1, code_point := h\<rparr>, Continue)"
  by (simp add: utf8_handler_def utf8_decoder_init_def and_low lead2_mod)

lemma handler_lead3:
  "h < 16 \<Longrightarrow>
   utf8_handler utf8_decoder_init (0xE0 + h) =
     (utf8_decoder_init\<lparr>lower_boundary := (if h = 0 then 0xA0 else 0x80),
        upper_boundary := (if h = 13 then 0x9F else 0xBF),
        bytes_needed := 2, code_point := h\<rparr>, Continue)"
  by (simp add: utf8_handler_def utf8_decoder_init_def and_low lead3_mod)

lemma handler_lead4:
  "h < 5 \<Longrightarrow>
   utf8_handler utf8_decoder_init (0xF0 + h) =
     (utf8_decoder_init\<lparr>lower_boundary := (if h = 0 then 0x90 else 0x80),
        upper_boundary := (if h = 4 then 0x8F else 0xBF),
        bytes_needed := 3, code_point := h\<rparr>, Continue)"
  by (simp add: utf8_handler_def utf8_decoder_init_def and_low lead4_mod)

lemma handler_cont:
  assumes "bytes_needed d \<noteq> 0" "l < 64"
    "lower_boundary d \<le> 0x80 + l" "0x80 + l \<le> upper_boundary d"
  shows "utf8_handler d (0x80 + l) =
     (if bytes_seen d + 1 \<noteq> bytes_needed d
      then (d\<lparr>lower_boundary := 0x80, upper_boundary := 0xBF,
               code_point := code_point d * 64 + l, bytes_seen := bytes_seen d + 1\<rparr>, Continue)
      else (utf8_decoder_init, Emit (code_point d * 64 + l)))"
  using assms by (simp add: utf8_handler_def and_low cont_mod shift_or Let_def)

lemma process_byte_of_nat:
  "n < 256 \<Longrightarrow> process_byte d (of_nat n) =
     (case utf8_handler d n of
        (d', Continue) \<Rightarrow> (d', [])
      | (d', Emit cp) \<Rightarrow> (d', [cp])
      | (d', DecodeError) \<Rightarrow> (d', [0xFFFD])
      | (d', DecodeErrorRestore) \<Rightarrow>
          (case utf8_handler d' n of
             (d'', Emit cp) \<Rightarrow> (d'', [0xFFFD, cp])
           | (d'', Continue) \<Rightarrow> (d'', [0xFFFD])
           | (d'', _) \<Rightarrow> (d'', [0xFFFD, 0xFFFD])))"
  by (simp only: process_byte_def unat_byte)

lemma process_cont:
  assumes "bytes_needed d \<noteq> 0" "l < 64"
    "lower_boundary d \<le> 0x80 + l" "0x80 + l \<le> upper_boundary d"
  shows "process_byte d (of_nat (0x80 + l)) =
     (if bytes_seen d + 1 \<noteq> bytes_needed d
      then (d\<lparr>lower_boundary := 0x80, upper_boundary := 0xBF,
               code_point := code_point d * 64 + l, bytes_seen := bytes_seen d + 1\<rparr>, [])
      else (utf8_decoder_init, [code_point d * 64 + l]))"
proof -
  have lt: "0x80 + l < 256" using assms(2) by simp
  show ?thesis
    by (simp only: process_byte_of_nat [OF lt] handler_cont [OF assms]) simp
qed

lemma process_lead3:
  "h < 16 \<Longrightarrow> process_byte utf8_decoder_init (of_nat (0xE0 + h)) = (after_lead3 h, [])"
  by (simp add: process_byte_of_nat handler_lead3 after_lead3_def del: of_nat_add of_nat_numeral)

lemma process_lead4:
  "h < 5 \<Longrightarrow> process_byte utf8_decoder_init (of_nat (0xF0 + h)) = (after_lead4 h, [])"
  by (simp add: process_byte_of_nat handler_lead4 after_lead4_def del: of_nat_add of_nat_numeral)

lemma process_second3:
  assumes "m < 64" "h = 0 \<Longrightarrow> 32 \<le> m" "h = 13 \<Longrightarrow> m < 32"
  shows "process_byte (after_lead3 h) (of_nat (0x80 + m)) = (in_sequence 2 1 (h * 64 + m), [])"
  using assms
  by (subst process_cont) (auto simp: after_lead3_def in_sequence_def utf8_decoder_init_def)

lemma process_second4:
  assumes "m < 64" "h = 0 \<Longrightarrow> 16 \<le> m" "h = 4 \<Longrightarrow> m < 16"
  shows "process_byte (after_lead4 h) (of_nat (0x80 + m)) = (in_sequence 3 1 (h * 64 + m), [])"
  using assms
  by (subst process_cont) (auto simp: after_lead4_def in_sequence_def utf8_decoder_init_def)

lemma process_middle:
  assumes "l < 64" "seen + 1 < needed"
  shows "process_byte (in_sequence needed seen c) (of_nat (0x80 + l)) =
           (in_sequence needed (seen + 1) (c * 64 + l), [])"
  using assms
  by (subst process_cont) (auto simp: in_sequence_def utf8_decoder_init_def)

lemma process_last:
  assumes "l < 64" "seen + 1 = needed"
  shows "process_byte (in_sequence needed seen c) (of_nat (0x80 + l)) =
           (utf8_decoder_init, [c * 64 + l])"
  using assms
  by (subst process_cont) (auto simp: in_sequence_def utf8_decoder_init_def)

lemma decode_bytes_single: "decode_bytes d [b] = process_byte d b"
  by (simp add: split_beta)

lemma decode_bytes_step:
  "process_byte d b = (d', []) \<Longrightarrow> decode_bytes d (b # bs) = decode_bytes d' bs"
  by (simp add: split_beta)

lemma encode3_steps:
  assumes "0x800 \<le> cp" "cp < 0x10000" "is_scalar_value cp"
  shows "\<exists>b1 b2 b3 d1 d2. utf8_encode cp = [b1, b2, b3] \<and>
           bytes_needed d1 \<noteq> 0 \<and> bytes_needed d2 \<noteq> 0 \<and>
           process_byte utf8_decoder_init b1 = (d1, []) \<and>
           process_byte d1 b2 = (d2, []) \<and>
           process_byte d2 b3 = (utf8_decoder_init, [cp])"
proof -
  define h where "h = cp div 4096"
  define m where "m = cp div 64 mod 64"
  define l where "l = cp mod 64"
  have "cp div 4096 = cp div 64 div 64" by (simp add: div_mult2_eq[symmetric])
  then have q: "cp div 64 = h * 64 + m"
    unfolding h_def m_def by simp
  have cp: "(h * 64 + m) * 64 + l = cp"
    unfolding h_def m_def l_def using split3 [of cp] by simp
  have l: "l < 64" and m: "m < 64" and h: "h < 16"
    using assms by (auto simp: h_def l_def m_def)
  have lo: "h = 0 \<Longrightarrow> 32 \<le> m" using assms(1) q by simp
  have "\<not> (0xD800 \<le> cp \<and> cp \<le> 0xDFFF)" using assms(3) by (simp add: is_scalar_value_def)
  then have hi: "h = 13 \<Longrightarrow> m < 32" using cp l m by auto
  have enc: "utf8_encode cp = [of_nat (0xE0 + h), of_nat (0x80 + m), of_nat (0x80 + l)]"
    using assms by (simp add: utf8_encode_def h_def l_def m_def)
  have s1: "process_byte utf8_decoder_init (of_nat (0xE0 + h)) = (after_lead3 h, [])"
    using h by (rule process_lead3)
  have s2: "process_byte (after_lead3 h) (of_nat (0x80 + m)) = (in_sequence 2 1 (h * 64 + m), [])"
    using m lo hi by (rule process_second3)
  have s3: "process_byte (in_sequence 2 1 (h * 64 + m)) (of_nat (0x80 + l)) = (utf8_decoder_init, [cp])"
    using process_last [of l 1 2 "h * 64 + m"] l cp by simp
  have n1: "bytes_needed (after_lead3 h) \<noteq> 0" by (simp add: after_lead3_def)
  have n2: "bytes_needed (in_sequence 2 1 (h * 64 + m)) \<noteq> 0" by (simp add: in_sequence_def)
  show ?thesis using enc s1 s2 s3 n1 n2 by blast
qed

lemma encode4_steps:
  assumes "0x10000 \<le> cp" "is_scalar_value cp"
  shows "\<exists>b1 b2 b3 b4 d1 d2 d3. utf8_encode cp = [b1, b2, b3, b4] \<and>
           bytes_needed d1 \<noteq> 0 \<and> bytes_needed d2 \<noteq> 0 \<and> bytes_needed d3 \<noteq> 0 \<and>
           process_byte utf8_decoder_init b1 = (d1, []) \<and>
           process_byte d1 b2 = (d2, []) \<and>
           process_byte d2 b3 = (d3, []) \<and>
           process_byte d3 b4 = (utf8_decoder_init, [cp])"
proof -
  define h where "h = cp div 262144"
  define m where "m = cp div 4096 mod 64"
  define k where "k = cp div 64 mod 64"
  define l where "l = cp mod 64"
  have "cp div 262144 = cp div 4096 div 64" by (simp add: div_mult2_eq[symmetric])
  then have q: "cp div 4096 = h * 64 + m"
    unfolding h_def m_def by simp
  have cp: "((h * 64 + m) * 64 + k) * 64 + l = cp"
    unfolding h_def m_def k_def l_def using split4 [of cp] by simp
  have lt: "cp < 0x110000" using assms(2) by (simp add: is_scalar_value_def)
  have l: "l < 64" and m: "m < 64" and k: "k < 64" and h: "h < 5"
    using lt by (auto simp: h_def l_def m_def k_def)
  have "16 \<le> cp div 4096" using assms(1) by simp
  then have lo: "h = 0 \<Longrightarrow> 16 \<le> m" using q by simp
  have "cp div 4096 < 272" using lt by simp
  then have hi: "h = 4 \<Longrightarrow> m < 16" using q by simp
  have enc: "utf8_encode cp =
      [of_nat (0xF0 + h), of_nat (0x80 + m), of_nat (0x80 + k), of_nat (0x80 + l)]"
    using assms(1) by (simp add: utf8_encode_def h_def l_def m_def k_def)
  have s1: "process_byte utf8_decoder_init (of_nat (0xF0 + h)) = (after_lead4 h, [])"
    using h by (rule process_lead4)
  have s2: "process_byte (after_lead4 h) (of_nat (0x80 + m)) = (in_sequence 3 1 (h * 64 + m), [])"
    using m lo hi by (rule process_second4)
  have s3: "process_byte (in_sequence 3 1 (h * 64 + m)) (of_nat (0x80 + k)) =
      (in_sequence 3 2 ((h * 64 + m) * 64 + k), [])"
    using process_middle [of k 1 3 "h * 64 + m"] k by (simp add: numeral_2_eq_2)
  have s4: "process_byte (in_sequence 3 2 ((h * 64 + m) * 64 + k)) (of_nat (0x80 + l)) =
      (utf8_decoder_init, [cp])"
    using process_last [of l 2 3 "(h * 64 + m) * 64 + k"] l cp by simp
  have n1: "bytes_needed (after_lead4 h) \<noteq> 0" by (simp add: after_lead4_def)
  have n2: "bytes_needed (in_sequence 3 1 (h * 64 + m)) \<noteq> 0" by (simp add: in_sequence_def)
  have n3: "bytes_needed (in_sequence 3 2 ((h * 64 + m) * 64 + k)) \<noteq> 0" by (simp add: in_sequence_def)
  show ?thesis using enc s1 s2 s3 s4 n1 n2 n3 by blast
qed

lemma encode2_steps:
  assumes "0x80 \<le> cp" "cp < 0x800"
  shows "\<exists>b1 b2 d1. utf8_encode cp = [b1, b2] \<and> bytes_needed d1 \<noteq> 0 \<and>
           process_byte utf8_decoder_init b1 = (d1, []) \<and>
           process_byte d1 b2 = (utf8_decoder_init, [cp])"
proof -
  define h where "h = cp div 64"
  define l where "l = cp mod 64"
  have cp: "h * 64 + l = cp" and l: "l < 64" and h: "2 \<le> h" "h < 32"
    using assms by (auto simp: h_def l_def)
  have enc: "utf8_encode cp = [of_nat (0xC0 + h), of_nat (0x80 + l)]"
    using assms by (simp add: utf8_encode_def h_def l_def)
  have s1: "process_byte utf8_decoder_init (of_nat (0xC0 + h)) = (in_sequence 1 0 h, [])"
  proof -
    have lt: "0xC0 + h < 256" using h by simp
    have eq: "utf8_decoder_init\<lparr>bytes_needed := 1, code_point := h\<rparr> = in_sequence 1 0 h"
      by (simp add: in_sequence_def utf8_decoder_init_def)
    show ?thesis
      by (simp only: process_byte_of_nat [OF lt] handler_lead2 [OF h] eq prod.case handler_result.case)
  qed
  have s2: "process_byte (in_sequence 1 0 h) (of_nat (0x80 + l)) = (utf8_decoder_init, [cp])"
    using process_last [of l 0 1 h] l cp by simp
  have n1: "bytes_needed (in_sequence 1 0 h) \<noteq> 0" by (simp add: in_sequence_def)
  show ?thesis using enc s1 s2 n1 by blast
qed

lemma encode1_steps:
  assumes "cp < 0x80"
  shows "\<exists>b1. utf8_encode cp = [b1] \<and> process_byte utf8_decoder_init b1 = (utf8_decoder_init, [cp])"
  using assms by (simp add: utf8_encode_def process_byte_of_nat handler_ascii del: of_nat_add of_nat_numeral)

lemma decode_split:
  assumes "is_scalar_value cp" "utf8_encode cp = p @ q" "q \<noteq> []"
  shows "\<exists>d. decode_bytes utf8_decoder_init p = (d, []) \<and>
             decode_bytes d q = (utf8_decoder_init, [cp]) \<and>
             (p \<noteq> [] \<longrightarrow> bytes_needed d \<noteq> 0)"
proof -
  consider "cp < 0x80" | "0x80 \<le> cp" "cp < 0x800" | "0x800 \<le> cp" "cp < 0x10000" | "0x10000 \<le> cp"
    by linarith
  then show ?thesis
  proof cases
    case 1
    from encode1_steps [OF 1] obtain b1 where
      e: "utf8_encode cp = [b1]" and s: "process_byte utf8_decoder_init b1 = (utf8_decoder_init, [cp])"
      by blast
    from e assms(2,3) have "p = []" "q = [b1]"
      by (auto simp: Cons_eq_append_conv append_eq_Cons_conv)
    then show ?thesis using s by (simp add: split_beta)
  next
    case 2
    from encode2_steps [OF 2] obtain b1 b2 d1 where
      e: "utf8_encode cp = [b1, b2]" and n: "bytes_needed d1 \<noteq> 0"
      and s1: "process_byte utf8_decoder_init b1 = (d1, [])"
      and s2: "process_byte d1 b2 = (utf8_decoder_init, [cp])"
      by blast
    from e assms(2,3) consider "p = []" "q = [b1, b2]" | "p = [b1]" "q = [b2]"
      by (auto simp: Cons_eq_append_conv append_eq_Cons_conv)
    then show ?thesis
      using s1 s2 n by cases (simp_all add: split_beta)
  next
    case 3
    from encode3_steps [OF 3 assms(1)] obtain b1 b2 b3 d1 d2 where
      e: "utf8_encode cp = [b1, b2, b3]" and n: "bytes_needed d1 \<noteq> 0" "bytes_needed d2 \<noteq> 0"
      and s1: "process_byte utf8_decoder_init b1 = (d1, [])"
      and s2: "process_byte d1 b2 = (d2, [])"
      and s3: "process_byte d2 b3 = (utf8_decoder_init, [cp])"
      by blast
    from e assms(2,3) consider "p = []" "q = [b1, b2, b3]" | "p = [b1]" "q = [b2, b3]"
      | "p = [b1, b2]" "q = [b3]"
      by (auto simp: Cons_eq_append_conv append_eq_Cons_conv)
    then show ?thesis
      using s1 s2 s3 n by cases (simp_all add: split_beta)
  next
    case 4
    from encode4_steps [OF 4 assms(1)] obtain b1 b2 b3 b4 d1 d2 d3 where
      e: "utf8_encode cp = [b1, b2, b3, b4]"
      and n: "bytes_needed d1 \<noteq> 0" "bytes_needed d2 \<noteq> 0" "bytes_needed d3 \<noteq> 0"
      and s1: "process_byte utf8_decoder_init b1 = (d1, [])"
      and s2: "process_byte d1 b2 = (d2, [])"
      and s3: "process_byte d2 b3 = (d3, [])"
      and s4: "process_byte d3 b4 = (utf8_decoder_init, [cp])"
      by blast
    from e assms(2,3) consider "p = []" "q = [b1, b2, b3, b4]" | "p = [b1]" "q = [b2, b3, b4]"
      | "p = [b1, b2]" "q = [b3, b4]" | "p = [b1, b2, b3]" "q = [b4]"
      by (auto simp: Cons_eq_append_conv append_eq_Cons_conv)
    then show ?thesis
      using s1 s2 s3 s4 n by cases (simp_all add: split_beta)
  qed
qed

section \<open>Decoding text, whole and in chunks\<close>

lemma js_string_of_append: "js_string_of (xs @ ys) = js_string_of xs @ js_string_of ys"
  by (simp add: js_string_of_def)

lemma serialize_io_queue_seen: "serialize_io_queue True xs = (True, xs)"
  by (induction xs) simp_all

lemma serialize_io_queue_unseen: "serialize_io_queue False xs = (xs \<noteq> [], strip_bom xs)"
  by (cases xs) (simp_all add: serialize_io_queue_seen)

lemma serialize_io_queue_append:
  "serialize_io_queue seen (xs @ ys) =
     (let (seen', out) = serialize_io_queue seen xs;
          (seen'', rest) = serialize_io_queue seen' ys
      in (seen'', out @ rest))"
proof (cases seen)
  case True
  then show ?thesis by (simp add: serialize_io_queue_seen)
next
  case False
  then show ?thesis
    by (cases xs) (simp_all add: serialize_io_queue_seen serialize_io_queue_unseen split_beta)
qed

lemma decode_text:
  "valid_text cps \<Longrightarrow>
   decode_bytes utf8_decoder_init (utf8_encode_text cps) = (utf8_decoder_init, cps)"
proof (induction cps)
  case Nil
  then show ?case by (simp add: utf8_encode_text_def)
next
  case (Cons cp cps)
  then have sc: "is_scalar_value cp" and rest: "valid_text cps"
    by (simp_all add: valid_text_def)
  have ne: "utf8_encode cp \<noteq> []" by (simp add: utf8_encode_def)
  from decode_split [OF sc, of "[]" "utf8_encode cp"] ne
  have one: "decode_bytes utf8_decoder_init (utf8_encode cp) = (utf8_decoder_init, [cp])"
    by simp
  have "utf8_encode_text (cp # cps) = utf8_encode cp @ utf8_encode_text cps"
    by (simp add: utf8_encode_text_def)
  then show ?case
    using one Cons.IH [OF rest] by (simp add: decode_bytes_append)
qed

lemma decode_text_partial:
  assumes "valid_text cps" "is_scalar_value cp" "utf8_encode cp = p @ q" "p \<noteq> []" "q \<noteq> []"
  shows "\<exists>d. decode_bytes utf8_decoder_init (utf8_encode_text cps @ p) = (d, cps) \<and>
             bytes_needed d \<noteq> 0 \<and> decode_bytes d q = (utf8_decoder_init, [cp])"
proof -
  from decode_split [OF assms(2,3,5)] assms(4) obtain d where
    d: "decode_bytes utf8_decoder_init p = (d, [])" "decode_bytes d q = (utf8_decoder_init, [cp])"
       "bytes_needed d \<noteq> 0"
    by blast
  have "decode_bytes utf8_decoder_init (utf8_encode_text cps @ p) = (d, cps)"
    using decode_text [OF assms(1)] d(1) by (simp add: decode_bytes_append)
  then show ?thesis using d by blast
qed

lemma TextDecoder_decode_stream:
  assumes "do_not_flush td \<or> (utf8 td = utf8_decoder_init \<and> \<not> bom_seen td)"
  shows "TextDecoder_decode td v True =
     (td\<lparr>utf8 := fst (decode_bytes (utf8 td) v),
         bom_seen := fst (serialize_io_queue (bom_seen td) (snd (decode_bytes (utf8 td) v))),
         do_not_flush := True\<rparr>,
      js_string_of (snd (serialize_io_queue (bom_seen td) (snd (decode_bytes (utf8 td) v)))))"
  using assms by (auto simp: TextDecoder_decode_def Let_def split_beta)

lemma decoded_chunks_concat:
  assumes "do_not_flush td \<or> (utf8 td = utf8_decoder_init \<and> \<not> bom_seen td)"
  shows "concat (decoded_chunks td cs) =
     js_string_of (snd (serialize_io_queue (bom_seen td) (snd (decode_bytes (utf8 td) (concat cs)))))"
  using assms
proof (induction cs arbitrary: td)
  case Nil
  then show ?case by (simp add: js_string_of_def)
next
  case (Cons v vs)
  let ?td' = "fst (TextDecoder_decode td v True)"
  have dnf: "do_not_flush ?td'"
    by (simp add: TextDecoder_decode_stream [OF Cons.prems])
  have IH: "concat (decoded_chunks ?td' vs) =
     js_string_of (snd (serialize_io_queue (bom_seen ?td') (snd (decode_bytes (utf8 ?td') (concat vs)))))"
    by (rule Cons.IH) (simp add: dnf)
  show ?case
    by (simp add: split_beta IH)
       (simp add: TextDecoder_decode_stream [OF Cons.prems] decode_bytes_append
          serialize_io_queue_append split_beta js_string_of_append)
qed

section \<open>The loop\<close>

lemma new_TextDecoder_fresh: "streaming_or_fresh new_TextDecoder"
  by (simp add: streaming_or_fresh_def new_TextDecoder_def)

lemma length_decoded_chunks: "length (decoded_chunks td cs) = length cs"
  by (induction cs arbitrary: td) (simp_all add: split_beta)


lemma read_loop_chunks:
  "read_loop env el s (map Chunk cs @ rs) = read_loop env el (foldl (on_chunk env el) s cs) rs"
  by (induction cs arbitrary: s) simp_all

lemma on_chunk_fullMessage:
  "fullMessage (on_chunk env el s v) = fullMessage s @ snd (TextDecoder_decode (decoder s) v True)"
  by (simp add: on_chunk_def split_beta Let_def)

lemma on_chunk_decoder:
  "decoder (on_chunk env el s v) = fst (TextDecoder_decode (decoder s) v True)"
  by (simp add: on_chunk_def split_beta Let_def)

lemma on_chunk_console: "console (on_chunk env el s v) = console s"
  by (simp add: on_chunk_def split_beta Let_def)

lemma on_chunk_document:
  "document (on_chunk env el s v) =
     update_message env el (fullMessage (on_chunk env el s v)) (document s)"
  by (simp add: on_chunk_def split_beta Let_def)

lemma foldl_on_chunk_fullMessage:
  "fullMessage (foldl (on_chunk env el) s cs) =
     fullMessage s @ concat (decoded_chunks (decoder s) cs)"
  by (induction cs arbitrary: s)
     (simp_all add: on_chunk_fullMessage on_chunk_decoder split_beta)

lemma foldl_on_chunk_console: "console (foldl (on_chunk env el) s cs) = console s"
  by (induction cs arbitrary: s) (simp_all add: on_chunk_console)

lemma TextDecoder_decode_keeps_streaming:
  "streaming_or_fresh td \<Longrightarrow> streaming_or_fresh (fst (TextDecoder_decode td v True))"
  unfolding streaming_or_fresh_def
  by (subst TextDecoder_decode_stream) simp_all

lemma foldl_on_chunk_decoder:
  assumes "streaming_or_fresh (decoder s)"
  shows "streaming_or_fresh (decoder (foldl (on_chunk env el) s cs)) \<and>
         utf8 (decoder (foldl (on_chunk env el) s cs)) =
           fst (decode_bytes (utf8 (decoder s)) (concat cs)) \<and>
         bom_seen (decoder (foldl (on_chunk env el) s cs)) =
           fst (serialize_io_queue (bom_seen (decoder s))
                  (snd (decode_bytes (utf8 (decoder s)) (concat cs))))"
  using assms
proof (induction cs arbitrary: s)
  case Nil
  then show ?case by simp
next
  case (Cons v vs)
  have sf: "do_not_flush (decoder s) \<or> (utf8 (decoder s) = utf8_decoder_init \<and> \<not> bom_seen (decoder s))"
    using Cons.prems by (simp add: streaming_or_fresh_def)
  have next_ok: "streaming_or_fresh (decoder (on_chunk env el s v))"
    using Cons.prems by (simp add: on_chunk_decoder TextDecoder_decode_keeps_streaming)
  show ?case
    using Cons.IH [OF next_ok]
    by (simp add: on_chunk_decoder TextDecoder_decode_stream [OF sf] decode_bytes_append
        serialize_io_queue_append split_beta)
qed

lemma update_message_target:
  assumes "doc ref = Some el" "message_content el = Some old"
  shows "update_message env (Some ref) full doc =
           doc(ref \<mapsto> el\<lparr>message_content := Some (rendered_view env full)\<rparr>)"
  using assms
  by (auto simp: update_message_def set_innerHTML_def highlight_pass_def rendered_view_def Let_def
      split: option.splits)

lemma update_message_no_target:
  "el = None \<or> (\<exists>ref. el = Some ref \<and> (doc ref = None \<or> (\<exists>e. doc ref = Some e \<and> message_content e = None))) \<Longrightarrow>
   update_message env el full doc = doc"
  by (auto simp: update_message_def split: option.splits)

lemma update_message_twice:
  "update_message env el f2 (update_message env el f1 doc) = update_message env el f2 doc"
proof (cases "\<exists>ref e old. el = Some ref \<and> doc ref = Some e \<and> message_content e = Some old")
  case True
  then obtain ref e old where t: "el = Some ref" "doc ref = Some e" "message_content e = Some old"
    by blast
  let ?e1 = "e\<lparr>message_content := Some (rendered_view env f1)\<rparr>"
  have 1: "update_message env el f1 doc = doc(ref \<mapsto> ?e1)"
    unfolding t(1) using t(2,3) by (rule update_message_target)
  have 2: "update_message env el f2 (doc(ref \<mapsto> ?e1)) =
      (doc(ref \<mapsto> ?e1))(ref \<mapsto> ?e1\<lparr>message_content := Some (rendered_view env f2)\<rparr>)"
    unfolding t(1) by (rule update_message_target) simp_all
  have 3: "update_message env el f2 doc = doc(ref \<mapsto> e\<lparr>message_content := Some (rendered_view env f2)\<rparr>)"
    unfolding t(1) using t(2,3) by (rule update_message_target)
  show ?thesis by (simp add: 1 2 3)
next
  case False
  then have "update_message env el f1 doc = doc" "update_message env el f2 doc = doc"
    by (auto simp: update_message_def split: option.splits)
  then show ?thesis by simp
qed

lemma foldl_on_chunk_document:
  "cs \<noteq> [] \<Longrightarrow>
   document (foldl (on_chunk env el) s cs) =
     update_message env el (fullMessage (foldl (on_chunk env el) s cs)) (document s)"
proof (induction cs arbitrary: s)
  case Nil
  then show ?case by simp
next
  case (Cons v vs)
  show ?case
  proof (cases "vs = []")
    case True
    then show ?thesis by (simp add: on_chunk_document)
  next
    case False
    from Cons.IH [OF False, of "on_chunk env el s v"]
    show ?thesis by (simp add: on_chunk_document update_message_twice)
  qed
qed

section \<open>Outcomes of streamResponse\<close>

lemma streamResponse_settle:
  "streamResponse env doc \<lparr>body = Some reader\<rparr> messageId =
     (let r = read_loop env (getElementById doc messageId) (initial_session doc) reader
      in (settle r,
          case snd r of Awaiting \<Rightarrow> Pending | _ \<Rightarrow> Resolved (fullMessage (settle r))))"
  by (simp add: streamResponse_def initial_session_def settle_def Let_def split_beta
      split: loop_exit.splits prod.splits)

lemma streamResponse_done:
  "streamResponse env doc \<lparr>body = Some (map Chunk cs @ Done # rest)\<rparr> messageId =
     (session_after env doc messageId cs, Resolved (fullMessage (session_after env doc messageId cs)))"
  by (simp add: streamResponse_settle read_loop_chunks settle_def session_after_def)

lemma streamResponse_failed:
  "streamResponse env doc \<lparr>body = Some (map Chunk cs @ ReadError e # rest)\<rparr> messageId =
     (on_error (session_after env doc messageId cs) e,
      Resolved (fullMessage (session_after env doc messageId cs) @ error_annotation e))"
  by (simp add: streamResponse_settle read_loop_chunks settle_def session_after_def on_error_def)

lemma streamResponse_awaiting:
  "streamResponse env doc \<lparr>body = Some (map Chunk cs)\<rparr> messageId =
     (session_after env doc messageId cs, Pending)"
  using read_loop_chunks [of env "getElementById doc messageId" "initial_session doc" cs "[]"]
  by (simp add: streamResponse_settle settle_def session_after_def)

lemma session_after_fullMessage:
  "fullMessage (session_after env doc messageId cs) = concat (decoded_chunks new_TextDecoder cs)"
  by (simp add: session_after_def foldl_on_chunk_fullMessage initial_session_def)

lemma session_after_document:
  "cs \<noteq> [] \<Longrightarrow>
   document (session_after env doc messageId cs) =
     update_message env (getElementById doc messageId) (concat (decoded_chunks new_TextDecoder cs)) doc"
  using foldl_on_chunk_document [of cs env "getElementById doc messageId" "initial_session doc"]
  by (simp add: session_after_fullMessage [unfolded session_after_def] session_after_def)
     (simp add: initial_session_def)

lemma session_after_decoder:
  "utf8 (decoder (session_after env doc messageId cs)) =
     fst (decode_bytes utf8_decoder_init (concat cs))"
  "bom_seen (decoder (session_after env doc messageId cs)) =
     fst (serialize_io_queue False (snd (decode_bytes utf8_decoder_init (concat cs))))"
  "streaming_or_fresh (decoder (session_after env doc messageId cs))"
  using foldl_on_chunk_decoder [of "initial_session doc" env "getElementById doc messageId" cs]
    new_TextDecoder_fresh
  by (simp_all add: session_after_def initial_session_def new_TextDecoder_def)

lemma decoded_text_valid:
  assumes "valid_text cps" "concat cs = utf8_encode_text cps"
  shows "concat (decoded_chunks new_TextDecoder cs) = js_string_of (strip_bom cps)"
proof -
  have "concat (decoded_chunks new_TextDecoder cs) =
     js_string_of (snd (serialize_io_queue False (snd (decode_bytes utf8_decoder_init (concat cs)))))"
    using decoded_chunks_concat [of new_TextDecoder cs]
    by (simp add: new_TextDecoder_def)
  then show ?thesis
    by (simp add: assms(2) decode_text [OF assms(1)] serialize_io_queue_unseen)
qed

lemma error_annotation_nonempty: "error_annotation e \<noteq> []"
  by (simp add: error_annotation_def js_def)

lemma on_error_prefix: "prefix (fullMessage s) (fullMessage (on_error s e))"
  by (simp add: on_error_def)

lemma on_chunk_prefix: "prefix (fullMessage s) (fullMessage (on_chunk env el s v))"
  by (simp add: on_chunk_fullMessage)

lemma settle_extends:
  "prefix (fullMessage s) (fullMessage (settle (read_loop env el s rs)))"
proof (induction rs arbitrary: s)
  case Nil
  then show ?case by (simp add: settle_def)
next
  case (Cons r rs)
  show ?case
  proof (cases r)
    case (Chunk v)
    have "prefix (fullMessage s) (fullMessage (on_chunk env el s v))" by (rule on_chunk_prefix)
    also have "prefix \<dots> (fullMessage (settle (read_loop env el (on_chunk env el s v) rs)))"
      by (rule Cons.IH)
    finally show ?thesis by (simp add: Chunk)
  next
    case Done
    then show ?thesis by (simp add: settle_def)
  next
    case (ReadError e)
    then show ?thesis by (simp add: settle_def on_error_prefix)
  qed
qed

lemma settle_append_extends:
  "prefix (fullMessage (settle (read_loop env el s rs)))
          (fullMessage (settle (read_loop env el s (rs @ later))))"
proof (induction rs arbitrary: s)
  case Nil
  then show ?case using settle_extends [of s env el later] by (simp add: settle_def)
next
  case (Cons r rs)
  then show ?case by (cases r) simp_all
qed

lemma utf8_encode_text_snoc: "utf8_encode_text (cps @ [cp]) = utf8_encode_text cps @ utf8_encode cp"
  by (simp add: utf8_encode_text_def)

lemma valid_text_snoc: "valid_text (cps @ [cp]) \<longleftrightarrow> valid_text cps \<and> is_scalar_value cp"
  by (auto simp: valid_text_def)

lemma streamResponse_session:
  "fst (streamResponse env doc \<lparr>body = Some reader\<rparr> messageId) =
     settle (read_loop env (getElementById doc messageId) (initial_session doc) reader)"
  by (simp add: streamResponse_settle Let_def)

lemma TextDecoder_decode_do_not_flush:
  "do_not_flush (fst (TextDecoder_decode td v stream)) = stream"
  by (simp add: TextDecoder_decode_def Let_def split_beta)

lemma foldl_on_chunk_do_not_flush:
  "cs \<noteq> [] \<Longrightarrow> do_not_flush (decoder (foldl (on_chunk env el) s cs))"
proof (induction cs arbitrary: s)
  case Nil
  then show ?case by simp
next
  case (Cons v vs)
  show ?case
  proof (cases "vs = []")
    case True
    then show ?thesis by (simp add: on_chunk_decoder TextDecoder_decode_do_not_flush)
  next
    case False
    from Cons.IH [OF False] show ?thesis by simp
  qed
qed

lemma flush_pending:
  assumes "do_not_flush td" and "bytes_needed (utf8 td) \<noteq> 0"
  shows "snd (TextDecoder_decode td [] False) = js_string_of [0xFFFD]"
  using assms
  by (cases "bom_seen td") (simp_all add: TextDecoder_decode_def end_of_queue_def Let_def)

lemma catch_leaves_document:
  "document (fst (streamResponse env doc
       \<lparr>body = Some (map Chunk chunks @ ReadError e # rest)\<rparr> messageId)) =
     document (session_after env doc messageId chunks)"
  by (simp add: streamResponse_failed on_error_def)

text \<open>
  The highlight pass visits every code block and calls the highlighter on it; the code has
  no test of its own for blocks that were highlighted before. A second pass over the same
  content therefore applies the highlighter a second time to each block.
\<close>

lemma highlight_blocks_twice:
  "highlight_blocks h (highlight_blocks h nodes) = highlight_blocks (h \<circ> h) nodes"
  by (induction nodes) (simp_all add: highlight_blocks_def split: node.splits)






section \<open>Properties\<close>

text \<open>
  C1. When every read succeeds and the bytes of the chunks, taken together, are the UTF-8
  encoding of a valid text, the promise resolves, once the stream is done, with the
  concatenation of the strings decoded from the chunks in arrival order, and that is the
  text (without a leading byte-order mark, which the decoder consumes).
\<close>

theorem streamResponse_resolves_with_decoded_text:
  assumes "valid_text cps" and "concat chunks = utf8_encode_text cps"
  shows "snd (streamResponse env doc \<lparr>body = Some (map Chunk chunks @ Done # rest)\<rparr> messageId) =
           Resolved (concat (decoded_chunks new_TextDecoder chunks)) \<and>
         concat (decoded_chunks new_TextDecoder chunks) = js_string_of (strip_bom cps)"
  using decoded_text_valid [OF assms]
  by (simp add: streamResponse_done session_after_fullMessage)

theorem streamResponse_resolves_with_decoded_text_witness:
  "valid_text [0x48, 0x20AC] \<and>
   concat [[0x48, 0xE2], [0x82, 0xAC]] = utf8_encode_text [0x48, 0x20AC] \<and>
   snd (streamResponse example_env example_doc
          \<lparr>body = Some (map Chunk [[0x48, 0xE2], [0x82, 0xAC]] @ [Done])\<rparr> ''msg-1'') =
     Resolved [0x48, 0x20AC]"
proof -
  have v: "valid_text [0x48, 0x20AC]"
    by (simp add: valid_text_def is_scalar_value_def)
  have c: "concat [[0x48, 0xE2], [0x82, 0xAC]] = utf8_encode_text [0x48, 0x20AC]"
    by (simp add: utf8_encode_text_def utf8_encode_def)
  have j: "js_string_of (strip_bom [0x48, 0x20AC]) = [0x48, 0x20AC]"
    by (simp add: js_string_of_def utf16_encode_def)
  from streamResponse_resolves_with_decoded_text [OF v c, of example_env example_doc "[]" "''msg-1''"]
  show ?thesis using v c j by simp
qed

text \<open>
  C2. When a read fails after N chunks, the promise resolves (it does not reject) with the
  concatenation of the N decoded chunks followed by an error annotation, which is not empty.
\<close>

theorem streamResponse_read_error_resolves:
  "snd (streamResponse env doc \<lparr>body = Some (map Chunk chunks @ ReadError e # rest)\<rparr> messageId) =
     Resolved (concat (decoded_chunks new_TextDecoder chunks) @ error_annotation e) \<and>
   error_annotation e \<noteq> []"
  by (simp add: streamResponse_failed session_after_fullMessage error_annotation_nonempty)

text \<open>
  C3. A character whose UTF-8 bytes are split over two consecutive chunks \<open>a\<close> and \<open>b\<close>
  is decoded to the same character as when its bytes arrive in the single chunk \<open>a @ b\<close>:
  after chunk \<open>a\<close> the decoder holds the incomplete sequence (it still needs bytes), and
  chunk \<open>b\<close> completes it.
\<close>

theorem split_character_decodes_as_whole:
  assumes "valid_text cps" and "concat before = utf8_encode_text cps"
    and "is_scalar_value cp" and "utf8_encode cp = a @ b" and "a \<noteq> []" and "b \<noteq> []"
  shows "snd (streamResponse env doc \<lparr>body = Some (map Chunk (before @ [a, b]) @ Done # rest)\<rparr> messageId) =
           Resolved (js_string_of (strip_bom (cps @ [cp]))) \<and>
         snd (streamResponse env doc \<lparr>body = Some (map Chunk (before @ [a @ b]) @ Done # rest)\<rparr> messageId) =
           Resolved (js_string_of (strip_bom (cps @ [cp]))) \<and>
         bytes_needed (utf8 (decoder (fst (streamResponse env doc
           \<lparr>body = Some (map Chunk (before @ [a]))\<rparr> messageId)))) \<noteq> 0"
proof -
  have v: "valid_text (cps @ [cp])" using assms(1,3) by (simp add: valid_text_snoc)
  have split: "concat (before @ [a, b]) = utf8_encode_text (cps @ [cp])"
    by (simp add: utf8_encode_text_snoc assms(2,4))
  have whole: "concat (before @ [a @ b]) = utf8_encode_text (cps @ [cp])"
    by (simp add: utf8_encode_text_snoc assms(2,4))
  from decode_text_partial [OF assms(1,3,4,5,6)] obtain d where
    d: "decode_bytes utf8_decoder_init (utf8_encode_text cps @ a) = (d, cps)" "bytes_needed d \<noteq> 0"
    by blast
  have pending: "utf8 (decoder (session_after env doc messageId (before @ [a]))) = d"
    by (simp add: session_after_decoder(1) assms(2) d(1))
  have r1: "snd (streamResponse env doc \<lparr>body = Some (map Chunk (before @ [a, b]) @ Done # rest)\<rparr> messageId) =
           Resolved (js_string_of (strip_bom (cps @ [cp])))"
    by (simp only: streamResponse_done snd_conv session_after_fullMessage
        decoded_text_valid [OF v split])
  have r2: "snd (streamResponse env doc \<lparr>body = Some (map Chunk (before @ [a @ b]) @ Done # rest)\<rparr> messageId) =
           Resolved (js_string_of (strip_bom (cps @ [cp])))"
    by (simp only: streamResponse_done snd_conv session_after_fullMessage
        decoded_text_valid [OF v whole])
  have r3: "bytes_needed (utf8 (decoder (fst (streamResponse env doc
           \<lparr>body = Some (map Chunk (before @ [a]))\<rparr> messageId)))) \<noteq> 0"
    using d(2) by (simp add: streamResponse_awaiting pending del: map_append)
  show ?thesis using r1 r2 r3 by blast
qed

theorem split_character_decodes_as_whole_witness:
  "valid_text [0x48] \<and> concat [[0x48]] = utf8_encode_text [0x48] \<and>
   is_scalar_value 0x20AC \<and> utf8_encode 0x20AC = [0xE2] @ [0x82, 0xAC] \<and>
   [0xE2 :: byte] \<noteq> [] \<and> [0x82, 0xAC :: byte] \<noteq> [] \<and>
   snd (streamResponse example_env example_doc
          \<lparr>body = Some (map Chunk ([[0x48]] @ [[0xE2], [0x82, 0xAC]]) @ [Done])\<rparr> ''msg-1'') =
     Resolved [0x48, 0x20AC] \<and>
   snd (streamResponse example_env example_doc
          \<lparr>body = Some (map Chunk ([[0x48]] @ [[0xE2] @ [0x82, 0xAC]]) @ [Done])\<rparr> ''msg-1'') =
     Resolved [0x48, 0x20AC]"
proof -
  have v: "valid_text [0x48]"
    by (simp add: valid_text_def is_scalar_value_def)
  have c: "concat [[0x48]] = utf8_encode_text [0x48]"
    by (simp add: utf8_encode_text_def utf8_encode_def)
  have s: "is_scalar_value 0x20AC"
    by (simp add: is_scalar_value_def)
  have e: "utf8_encode 0x20AC = [0xE2] @ [0x82, 0xAC]"
    by (simp add: utf8_encode_def)
  have j: "js_string_of (strip_bom ([0x48] @ [0x20AC])) = [0x48, 0x20AC]"
    by (simp add: js_string_of_def utf16_encode_def)
  from split_character_decodes_as_whole [OF v c s e, of example_env example_doc "[]" "''msg-1''"]
  show ?thesis using v c s e j by simp
qed

text \<open>
  C4. A stream that delivers the chunk \<^verbatim>\<open>Hi\<close> and then fails: the promise resolves with the
  text and the error annotation, but the message element shows the render of \<^verbatim>\<open>Hi\<close> only.
  The catch block appends the annotation to the text and does not render it.
\<close>

theorem error_annotation_not_rendered:
  "snd (streamResponse example_env example_doc
      \<lparr>body = Some (map Chunk [[0x48, 0x69]] @ [ReadError (JsError ''TypeError'' [])])\<rparr> ''msg-1'') =
     Resolved (js ''Hi'' @ js ([CHR 0x0A, CHR 0x0A] @ ''**Error during streaming:** Connection interrupted.'')) \<and>
   document (fst (streamResponse example_env example_doc
      \<lparr>body = Some (map Chunk [[0x48, 0x69]] @ [ReadError (JsError ''TypeError'' [])])\<rparr> ''msg-1''))
     ''msg-1'' = Some \<lparr>message_content = Some (md_render example_env (js ''Hi''))\<rparr> \<and>
   md_render example_env (js ''Hi'') \<noteq>
     md_render example_env
       (js ''Hi'' @ js ([CHR 0x0A, CHR 0x0A] @ ''**Error during streaming:** Connection interrupted.''))"
proof -
  have v: "valid_text [0x48, 0x69]"
    by (simp add: valid_text_def is_scalar_value_def)
  have c: "concat [[0x48, 0x69]] = utf8_encode_text [0x48, 0x69]"
    by (simp add: utf8_encode_text_def utf8_encode_def)
  have hi: "concat (decoded_chunks new_TextDecoder [[0x48, 0x69]]) = js ''Hi''"
    by (simp only: decoded_text_valid [OF v c]) (simp add: js_string_of_def utf16_encode_def js_def)
  have a: "error_annotation (JsError ''TypeError'' []) =
      js ([CHR 0x0A, CHR 0x0A] @ ''**Error during streaming:** Connection interrupted.'')"
    by (simp add: error_annotation_def js_def)
  have r: "snd (streamResponse example_env example_doc
      \<lparr>body = Some (map Chunk [[0x48, 0x69]] @ [ReadError (JsError ''TypeError'' [])])\<rparr> ''msg-1'') =
     Resolved (js ''Hi'' @ js ([CHR 0x0A, CHR 0x0A] @ ''**Error during streaming:** Connection interrupted.''))"
    by (simp only: streamResponse_failed snd_conv session_after_fullMessage hi a)
  have t: "example_doc ''msg-1'' = Some \<lparr>message_content = Some []\<rparr>"
    by (simp add: example_doc_def)
  have d: "document (session_after example_env example_doc ''msg-1'' [[0x48, 0x69]]) =
      example_doc(''msg-1'' \<mapsto> \<lparr>message_content = Some (md_render example_env (js ''Hi''))\<rparr>)"
  proof -
    have n: "[[0x48, 0x69]] \<noteq> ([] :: byte list list)" by simp
    have "document (session_after example_env example_doc ''msg-1'' [[0x48, 0x69]]) =
        update_message example_env (getElementById example_doc ''msg-1'') (js ''Hi'') example_doc"
      by (simp only: session_after_document [OF n] hi)
    then show ?thesis
      using update_message_target [of example_doc "''msg-1''" "\<lparr>message_content = Some []\<rparr>" "[]"
          example_env "js ''Hi''"] t
      by (simp add: getElementById_def rendered_view_def example_env_def)
  qed
  have shown: "document (fst (streamResponse example_env example_doc
      \<lparr>body = Some (map Chunk [[0x48, 0x69]] @ [ReadError (JsError ''TypeError'' [])])\<rparr> ''msg-1''))
     ''msg-1'' = Some \<lparr>message_content = Some (md_render example_env (js ''Hi''))\<rparr>"
    by (simp only: catch_leaves_document d) simp
  have ne: "md_render example_env (js ''Hi'') \<noteq>
     md_render example_env
       (js ''Hi'' @ js ([CHR 0x0A, CHR 0x0A] @ ''**Error during streaming:** Connection interrupted.''))"
    by (simp add: example_env_def js_def)
  show ?thesis using r shown ne by blast
qed




text \<open>
  C7. The accumulated text only grows: the text before a step of the loop, and before the
  catch block, is a prefix of the text after it; and the text of the session after \<open>k\<close>
  reads is a prefix of its text after \<open>k'\<close> reads, for \<open>k \<le> k'\<close>. The session after \<open>k\<close>
  reads is the session of the call whose reader has settled \<open>k\<close> reads so far.
\<close>

theorem accumulated_text_append_only:
  "prefix (fullMessage s) (fullMessage (on_chunk env el s v)) \<and>
   prefix (fullMessage s) (fullMessage (on_error s e)) \<and>
   (k \<le> k' \<longrightarrow>
      prefix (fullMessage (fst (streamResponse env doc \<lparr>body = Some (take k reader)\<rparr> messageId)))
             (fullMessage (fst (streamResponse env doc \<lparr>body = Some (take k' reader)\<rparr> messageId))))"
proof -
  have "prefix (fullMessage (fst (streamResponse env doc \<lparr>body = Some (take k reader)\<rparr> messageId)))
               (fullMessage (fst (streamResponse env doc \<lparr>body = Some (take k' reader)\<rparr> messageId)))"
    if "k \<le> k'"
  proof -
    have "take k' reader = take k reader @ drop k (take k' reader)"
      using that by (metis append_take_drop_id min.absorb2 take_take min.commute)
    then show ?thesis
      using settle_append_extends [of env "getElementById doc messageId" "initial_session doc"
          "take k reader" "drop k (take k' reader)"]
      by (simp add: streamResponse_session)
  qed
  then show ?thesis by (simp add: on_chunk_prefix on_error_prefix)
qed

theorem accumulated_text_append_only_witness:
  "(1::nat) \<le> 2 \<and>
   prefix (fullMessage (fst (streamResponse example_env example_doc
       \<lparr>body = Some (take 1 [Chunk [0x48], ReadError (JsError ''TypeError'' []), Done])\<rparr> ''msg-1'')))
     (fullMessage (fst (streamResponse example_env example_doc
       \<lparr>body = Some (take 2 [Chunk [0x48], ReadError (JsError ''TypeError'' []), Done])\<rparr> ''msg-1'')))"
  using accumulated_text_append_only [of _ example_env _ _ _ 1 2 example_doc
      "[Chunk [0x48], ReadError (JsError ''TypeError'' []), Done]" "''msg-1''"]
  by simp



text \<open>
  C9. With an element of the typing-indicator id in the document, removeTypingIndicator
  throws a ReferenceError for the identifier \<open>typing_Div\<close> (the function binds \<open>typingDiv\<close>,
  and no enclosing scope binds \<open>typing_Div\<close>), and the document keeps the indicator; with no
  such element it returns and changes nothing.
\<close>

theorem removeTypingIndicator_throws:
  assumes "map_of enclosing ''typing_Div'' = None"
  shows "(doc TYPING_INDICATOR_ID \<noteq> None \<longrightarrow>
            removeTypingIndicator enclosing doc =
              (Inl (JsError ''ReferenceError'' (js ''typing_Div is not defined'')), doc)) \<and>
         (doc TYPING_INDICATOR_ID = None \<longrightarrow>
            removeTypingIndicator enclosing doc = (Inr (), doc))"
  using assms
  by (simp add: removeTypingIndicator_def getElementById_def resolve_identifier_def)

theorem removeTypingIndicator_throws_witness:
  "map_of [(''chatContainer'', ''chatHistory'')] ''typing_Div'' = None \<and>
   [''typing-indicator'' \<mapsto> \<lparr>message_content = Some ([] :: unit node list)\<rparr>] TYPING_INDICATOR_ID \<noteq> None \<and>
   removeTypingIndicator [(''chatContainer'', ''chatHistory'')]
       [''typing-indicator'' \<mapsto> \<lparr>message_content = Some ([] :: unit node list)\<rparr>] =
     (Inl (JsError ''ReferenceError'' (js ''typing_Div is not defined'')),
      [''typing-indicator'' \<mapsto> \<lparr>message_content = Some []\<rparr>]) \<and>
   example_doc TYPING_INDICATOR_ID = None \<and>
   removeTypingIndicator [(''chatContainer'', ''chatHistory'')] example_doc = (Inr (), example_doc)"
proof -
  have g: "map_of [(''chatContainer'', ''chatHistory'')] ''typing_Div'' = None"
    by simp
  have p: "[''typing-indicator'' \<mapsto> \<lparr>message_content = Some ([] :: unit node list)\<rparr>] TYPING_INDICATOR_ID \<noteq> None"
    by (simp add: TYPING_INDICATOR_ID_def)
  have a: "example_doc TYPING_INDICATOR_ID = None"
    by (simp add: TYPING_INDICATOR_ID_def example_doc_def)
  from removeTypingIndicator_throws [OF g, of "[''typing-indicator'' \<mapsto> \<lparr>message_content = Some ([] :: unit node list)\<rparr>]"]
    removeTypingIndicator_throws [OF g, of example_doc]
  show ?thesis using g p a by simp
qed

text \<open>
  C10. When the stream is done while the decoder still holds an incomplete multi-byte
  sequence, the promise resolves with the characters completed before, and nothing for the
  trailing bytes: the decoder still needs bytes, and only a flushing \<^verbatim>\<open>decode()\<close> call,
  which streamResponse does not make, would have turned them into U+FFFD.
\<close>

theorem trailing_partial_sequence_dropped:
  assumes "valid_text cps" and "is_scalar_value cp" and "utf8_encode cp = p @ q"
    and "p \<noteq> []" and "q \<noteq> []" and "concat chunks = utf8_encode_text cps @ p"
  shows "snd (streamResponse env doc \<lparr>body = Some (map Chunk chunks @ Done # rest)\<rparr> messageId) =
           Resolved (js_string_of (strip_bom cps)) \<and>
         bytes_needed (utf8 (decoder (fst (streamResponse env doc
           \<lparr>body = Some (map Chunk chunks @ Done # rest)\<rparr> messageId)))) \<noteq> 0 \<and>
         snd (TextDecoder_decode (decoder (fst (streamResponse env doc
           \<lparr>body = Some (map Chunk chunks @ Done # rest)\<rparr> messageId))) [] False) =
           js_string_of [0xFFFD]"
proof -
  let ?s = "session_after env doc messageId chunks"
  from decode_text_partial [OF assms(1,2,3,4,5)] obtain d where
    d: "decode_bytes utf8_decoder_init (utf8_encode_text cps @ p) = (d, cps)" "bytes_needed d \<noteq> 0"
    by blast
  have ne: "chunks \<noteq> []" using assms(4,6) by auto
  have "concat (decoded_chunks new_TextDecoder chunks) =
     js_string_of (snd (serialize_io_queue False (snd (decode_bytes utf8_decoder_init (concat chunks)))))"
    using decoded_chunks_concat [of new_TextDecoder chunks]
    by (simp add: new_TextDecoder_def)
  then have res: "fullMessage ?s = js_string_of (strip_bom cps)"
    by (simp add: session_after_fullMessage assms(6) d(1) serialize_io_queue_unseen)
  have pend: "bytes_needed (utf8 (decoder ?s)) \<noteq> 0"
    using d(2) by (simp add: session_after_decoder(1) assms(6) d(1))
  have dnf: "do_not_flush (decoder ?s)"
    unfolding session_after_def using ne by (rule foldl_on_chunk_do_not_flush)
  show ?thesis
    using res pend flush_pending [OF dnf pend] by (simp add: streamResponse_done)
qed

theorem trailing_partial_sequence_dropped_witness:
  "valid_text [0x48] \<and> is_scalar_value 0x20AC \<and> utf8_encode 0x20AC = [0xE2, 0x82] @ [0xAC] \<and>
   [0xE2, 0x82 :: byte] \<noteq> [] \<and> [0xAC :: byte] \<noteq> [] \<and>
   concat [[0x48, 0xE2], [0x82]] = utf8_encode_text [0x48] @ [0xE2, 0x82] \<and>
   snd (streamResponse example_env example_doc
          \<lparr>body = Some (map Chunk [[0x48, 0xE2], [0x82]] @ [Done])\<rparr> ''msg-1'') = Resolved [0x48]"
proof -
  have v: "valid_text [0x48]"
    by (simp add: valid_text_def is_scalar_value_def)
  have s: "is_scalar_value 0x20AC"
    by (simp add: is_scalar_value_def)
  have e: "utf8_encode 0x20AC = [0xE2, 0x82] @ [0xAC]"
    by (simp add: utf8_encode_def)
  have c: "concat [[0x48, 0xE2], [0x82]] = utf8_encode_text [0x48] @ [0xE2, 0x82]"
    by (simp add: utf8_encode_text_def utf8_encode_def)
  have j: "js_string_of (strip_bom [0x48]) = [0x48]"
    by (simp add: js_string_of_def utf16_encode_def)
  from trailing_partial_sequence_dropped [where cps = "[0x48]" and cp = "0x20AC"
      and p = "[0xE2, 0x82]" and q = "[0xAC]" and chunks = "[[0x48, 0xE2], [0x82]]"
      and env = example_env and doc = example_doc and rest = "[]" and messageId = "''msg-1''",
      OF v s e _ _ c]
  show ?thesis using v s e c j by simp
qed

end
